theory Spec2Isabelle
  imports Main
begin

section \<open>Text\<close>

text \<open>
  A Python \<open>str\<close> is a sequence of Unicode code points; it is modelled as a list of
  natural numbers. \<open>lit\<close> embeds an ASCII literal.
\<close>

type_synonym str = "nat list"

definition lit :: "string \<Rightarrow> str" where
  "lit cs = map of_char cs"

text \<open>
  The Unicode character database is not part of the repository. The classification of
  the code points from 128 on is a parameter: \<open>uni_alnum\<close> is what \<open>str.isalnum\<close>
  answers there, \<open>uni_space\<close> what \<open>str.isspace\<close> answers. Below 128 the tables are
  written out.
\<close>

record ucd =
  uni_alnum :: "nat \<Rightarrow> bool"
  uni_space :: "nat \<Rightarrow> bool"

definition rng :: "char \<Rightarrow> char \<Rightarrow> nat \<Rightarrow> bool" where
  "rng a b c = (of_char a \<le> c \<and> c \<le> of_char b)"

definition one_of :: "string \<Rightarrow> nat \<Rightarrow> bool" where
  "one_of cs c = (c \<in> set (lit cs))"

text \<open>\<open>\w\<close> of a \<open>str\<close> pattern: alphanumeric or the underscore.\<close>

definition is_word :: "ucd \<Rightarrow> nat \<Rightarrow> bool" where
  "is_word U c =
     (if c < 128
      then rng CHR ''a'' CHR ''z'' c \<or> rng CHR ''A'' CHR ''Z'' c \<or> rng CHR ''0'' CHR ''9'' c
           \<or> c = of_char CHR ''_''
      else uni_alnum U c)"

text \<open>
  The characters \<open>str.strip()\<close> removes: below 128 these are the tab, line feed,
  vertical tab, form feed, carriage return, the four separators 28 to 31 and the space.
\<close>

definition is_space :: "ucd \<Rightarrow> nat \<Rightarrow> bool" where
  "is_space U c =
     (if c < 128 then (9 \<le> c \<and> c \<le> 13) \<or> (28 \<le> c \<and> c \<le> 32) else uni_space U c)"

section \<open>The regular expression engine\<close>

text \<open>
  The pattern of the source uses four constructs only: the word boundary \<open>\b\<close>, a
  literal character, and a character class under a greedy repetition with a lower
  bound (\<open>+\<close> is \<open>{1,}\<close>). A pattern is the sequence of its items.
\<close>

datatype atom = WordBoundary | Literal nat | ClassRep "nat \<Rightarrow> bool" nat

type_synonym pattern = "atom list"

definition word_at :: "ucd \<Rightarrow> str \<Rightarrow> nat \<Rightarrow> bool" where
  "word_at U s i = (i < length s \<and> is_word U (s ! i))"

text \<open>
  \<open>\b\<close> holds at \<open>i\<close> when exactly one of the characters before and after \<open>i\<close> is a
  word character; the two ends of the text count as non-word.
\<close>

definition boundary :: "ucd \<Rightarrow> str \<Rightarrow> nat \<Rightarrow> bool" where
  "boundary U s i = ((0 < i \<and> word_at U s (i - 1)) \<noteq> word_at U s i)"

text \<open>
  \<open>ends U a s i\<close> lists the positions at which item \<open>a\<close>, started at \<open>i\<close>, can end, in
  the order a backtracking matcher tries them: a greedy repetition takes the longest
  run first and gives characters back one by one down to its lower bound.
\<close>

fun ends :: "ucd \<Rightarrow> atom \<Rightarrow> str \<Rightarrow> nat \<Rightarrow> nat list" where
  "ends U WordBoundary s i = (if boundary U s i then [i] else [])"
| "ends U (Literal c) s i = (if i < length s \<and> s ! i = c then [Suc i] else [])"
| "ends U (ClassRep cls n) s i =
     map (\<lambda>k. i + k) (rev [n ..< Suc (length (takeWhile cls (drop i s)))])"

fun ends_seq :: "ucd \<Rightarrow> pattern \<Rightarrow> str \<Rightarrow> nat \<Rightarrow> nat list" where
  "ends_seq U [] s i = [i]"
| "ends_seq U (a # p) s i = concat (map (ends_seq U p s) (ends U a s i))"

text \<open>
  The match the engine reports at \<open>i\<close> is the first one in that order. When
  \<open>must_advance\<close> is set (the previous match was empty and ended here) an empty match is
  refused and the engine backtracks to the next candidate.
\<close>

definition match_at :: "ucd \<Rightarrow> pattern \<Rightarrow> str \<Rightarrow> nat \<Rightarrow> bool \<Rightarrow> nat option" where
  "match_at U p s i must_advance =
     (case filter (\<lambda>e. \<not> (must_advance \<and> e \<le> i)) (ends_seq U p s i) of
        [] \<Rightarrow> None
      | e # _ \<Rightarrow> Some e)"

text \<open>\<open>re.match\<close>: a match that starts at position 0 (it need not reach the end).\<close>

definition re_match :: "ucd \<Rightarrow> pattern \<Rightarrow> str \<Rightarrow> bool" where
  "re_match U p s = (match_at U p s 0 False \<noteq> None)"

text \<open>\<open>re.fullmatch\<close>: some way of matching from position 0 ends at the end of the text.\<close>

definition re_fullmatch :: "ucd \<Rightarrow> pattern \<Rightarrow> str \<Rightarrow> bool" where
  "re_fullmatch U p s = (length s \<in> set (ends_seq U p s 0))"

text \<open>
  \<open>re.findall\<close> for a pattern without groups: scan from the left; at each position try
  to match, report the matched substring and go on from its end; where nothing
  matches, move one character on.
\<close>

function findall_from :: "ucd \<Rightarrow> pattern \<Rightarrow> str \<Rightarrow> nat \<Rightarrow> bool \<Rightarrow> str list" where
  "findall_from U p s i must_advance =
     (if length s < i then []
      else case match_at U p s i must_advance of
             None \<Rightarrow> findall_from U p s (Suc i) False
           | Some e \<Rightarrow>
               if i < e then take (e - i) (drop i s) # findall_from U p s e False
               else [] # findall_from U p s i True)"
  by pat_completeness auto

lemma match_at_advance:
  "match_at U p s i True = Some e \<Longrightarrow> i < e"
proof -
  assume m: "match_at U p s i True = Some e"
  then obtain es where "filter (\<lambda>e. \<not> e \<le> i) (ends_seq U p s i) = e # es"
    by (auto simp: match_at_def split: list.splits)
  then have "e \<in> set (filter (\<lambda>e. \<not> e \<le> i) (ends_seq U p s i))"
    by simp
  then show "i < e" by simp
qed

termination findall_from
proof (relation "measure (\<lambda>(U, p, s, i, adv). 2 * (Suc (length s) - i) + (if adv then 0 else 1))",
    goal_cases)
  case 1
  show ?case by simp
next
  case (2 U p s i adv)
  then show ?case by auto
next
  case (3 U p s i adv e)
  then show ?case by auto
next
  case (4 U p s i adv e)
  then have "\<not> adv" using match_at_advance [of U p s i e] by (cases adv) auto
  then show ?case by simp
qed

declare findall_from.simps [simp del]

text \<open>The characters an item can consume.\<close>

fun admits :: "atom \<Rightarrow> nat \<Rightarrow> bool" where
  "admits WordBoundary c = False"
| "admits (Literal l) c = (c = l)"
| "admits (ClassRep cls n) c = cls c"

definition findall :: "ucd \<Rightarrow> pattern \<Rightarrow> str \<Rightarrow> str list" where
  "findall U p s = findall_from U p s 0 False"

section \<open>The email pattern\<close>

text \<open>
  The three functions that search for addresses use the same pattern,
  \<^verbatim>\<open>\b[A-Za-z0-9._%+-]+@[A-Za-z0-9.-]+\.[A-Z|a-z]{2,}\b\<close>.
  Inside the last class the bar is an ordinary member of the class.
\<close>

definition local_class :: "nat \<Rightarrow> bool" where
  "local_class c =
     (rng CHR ''A'' CHR ''Z'' c \<or> rng CHR ''a'' CHR ''z'' c \<or> rng CHR ''0'' CHR ''9'' c
      \<or> one_of ''._%+-'' c)"

definition domain_class :: "nat \<Rightarrow> bool" where
  "domain_class c =
     (rng CHR ''A'' CHR ''Z'' c \<or> rng CHR ''a'' CHR ''z'' c \<or> rng CHR ''0'' CHR ''9'' c
      \<or> one_of ''.-'' c)"

definition tld_class :: "nat \<Rightarrow> bool" where
  "tld_class c = (rng CHR ''A'' CHR ''Z'' c \<or> one_of ''|'' c \<or> rng CHR ''a'' CHR ''z'' c)"

definition email_pattern :: pattern where
  "email_pattern =
     [WordBoundary, ClassRep local_class 1, Literal (of_char CHR ''@''),
      ClassRep domain_class 1, Literal (of_char CHR ''.''), ClassRep tld_class 2,
      WordBoundary]"

text \<open>The part of the pattern between its two word boundaries.\<close>

definition email_body :: pattern where
  "email_body =
     [ClassRep local_class 1, Literal (of_char CHR ''@''), ClassRep domain_class 1,
      Literal (of_char CHR ''.''), ClassRep tld_class 2]"

text \<open>
  The pattern as the specification words it, for comparison: after the dot,
  ``two-or-more letters''. It differs from \<open>email_pattern\<close> in the last class only.
\<close>

definition spec_tld_class :: "nat \<Rightarrow> bool" where
  "spec_tld_class c = (rng CHR ''A'' CHR ''Z'' c \<or> rng CHR ''a'' CHR ''z'' c)"

definition spec_email_pattern :: pattern where
  "spec_email_pattern =
     [WordBoundary, ClassRep local_class 1, Literal (of_char CHR ''@''),
      ClassRep domain_class 1, Literal (of_char CHR ''.''), ClassRep spec_tld_class 2,
      WordBoundary]"

section \<open>String operations\<close>

text \<open>\<open>sep.join(xs)\<close>.\<close>

fun join :: "str \<Rightarrow> str list \<Rightarrow> str" where
  "join sep [] = []"
| "join sep [x] = x"
| "join sep (x # y # ys) = x @ sep @ join sep (y # ys)"

text \<open>
  \<open>s.split(c)\<close> for a separator of one character: the pieces between the occurrences
  of \<open>c\<close>, empty pieces kept; the result always has at least one piece.
\<close>

fun split :: "nat \<Rightarrow> str \<Rightarrow> str list" where
  "split c [] = [[]]"
| "split c (x # xs) =
     (if x = c then [] # split c xs
      else case split c xs of
             [] \<Rightarrow> [[x]]
           | piece # pieces \<Rightarrow> (x # piece) # pieces)"

text \<open>\<open>s.strip()\<close>: whitespace removed from both ends.\<close>

definition strip :: "ucd \<Rightarrow> str \<Rightarrow> str" where
  "strip U s = rev (dropWhile (is_space U) (rev (dropWhile (is_space U) s)))"

text \<open>
  Iterating over a file opened in text mode gives its lines, each with its line feed;
  a last line without one is given as it is.
\<close>

fun file_lines :: "str \<Rightarrow> str list" where
  "file_lines [] = []"
| "file_lines (x # xs) =
     (if x = 10 then [x] # file_lines xs
      else case file_lines xs of
             [] \<Rightarrow> [[x]]
           | line # ls \<Rightarrow> (x # line) # ls)"

text \<open>\<open>Series.unique()\<close>: the values in the order of their first appearance.\<close>

fun unique :: "'a list \<Rightarrow> 'a list \<Rightarrow> 'a list" where
  "unique seen [] = seen"
| "unique seen (x # xs) = (if x \<in> set seen then unique seen xs else unique (seen @ [x]) xs)"

section \<open>The data model\<close>

text \<open>
  A row of the DataFrame. The loop over the calendar builds rows whose \<open>Start\<close> and
  \<open>End\<close> are still Python date or datetime objects; \<open>pd.to_datetime\<close> then turns the
  two columns into UTC timestamps. The record is polymorphic in the two column types.
  \<open>extract_email_addresses\<close> adds the column \<open>Emails\<close>.
\<close>

record ('s, 'e) event =
  Summary :: "str option"
  Start :: 's
  End :: 'e
  Location :: "str option"
  Description :: "str option"
  Attendees :: str

record ('s, 'e) event_emails = "('s, 'e) event" +
  Emails :: str

datatype error =
    OSError string
  | ValueError
  | KeyError str
  | AttributeError
  | OverflowError
  | OutOfBoundsDatetime

section \<open>Extraction from the attendees\<close>

definition extract_email_addresses :: "ucd \<Rightarrow> ('s, 'e) event list \<Rightarrow> ('s, 'e) event_emails list" where
  "extract_email_addresses U df =
     map (\<lambda>row. event.extend row
            (event_emails.fields (join (lit '', '') (findall U email_pattern (Attendees row)))))
       df"

text \<open>
  \<open>clean_and_explode_emails\<close>, statement by statement: the rows with a non-empty
  \<open>Emails\<close> are kept; \<open>Emails\<close> is replaced by the list of its pieces between commas and
  the frame exploded on it, one row for each piece; each piece is stripped.
\<close>

definition drop_empty :: "('s, 'e) event_emails list \<Rightarrow> ('s, 'e) event_emails list" where
  "drop_empty df = filter (\<lambda>row. Emails row \<noteq> []) df"

definition split_and_explode :: "('s, 'e) event_emails list \<Rightarrow> ('s, 'e) event_emails list" where
  "split_and_explode df =
     concat (map (\<lambda>row. map (\<lambda>piece. row\<lparr>Emails := piece\<rparr>) (split (of_char CHR '','') (Emails row))) df)"

definition strip_emails :: "ucd \<Rightarrow> ('s, 'e) event_emails list \<Rightarrow> ('s, 'e) event_emails list" where
  "strip_emails U df = map (\<lambda>row. row\<lparr>Emails := strip U (Emails row)\<rparr>) df"

definition clean_and_explode_emails :: "ucd \<Rightarrow> ('s, 'e) event_emails list \<Rightarrow> ('s, 'e) event_emails list" where
  "clean_and_explode_emails U df = strip_emails U (split_and_explode (drop_empty df))"

section \<open>The environment\<close>

text \<open>
  Dates and times. A Python \<open>date\<close> is the number of its day, counted from 1970-01-01
  on the proleptic Gregorian calendar; a \<open>datetime\<close> is its wall-clock reading in
  seconds from 1970-01-01T00:00:00 together with the UTC offset of its \<open>tzinfo\<close>, in
  seconds, or \<open>None\<close> for a naive value.
\<close>

datatype dt = Date int | DateTime int "int option"

definition days_from_civil :: "int \<Rightarrow> int \<Rightarrow> int \<Rightarrow> int" where
  "days_from_civil y m d =
     (let y' = (if m \<le> 2 then y - 1 else y);
          era = y' div 400;
          yoe = y' - era * 400;
          doy = (153 * (if 2 < m then m - 3 else m + 9) + 2) div 5 + d - 1;
          doe = yoe * 365 + yoe div 4 - yoe div 100 + doy
      in era * 146097 + doe - 719468)"

definition date :: "int \<Rightarrow> int \<Rightarrow> int \<Rightarrow> dt" where
  "date y m d = Date (days_from_civil y m d)"

definition datetime :: "int \<Rightarrow> int \<Rightarrow> int \<Rightarrow> int \<Rightarrow> int \<Rightarrow> int \<Rightarrow> int" where
  "datetime y m d hh mm ss = days_from_civil y m d * 86400 + hh * 3600 + mm * 60 + ss"

text \<open>
  What the parser of the \<open>icalendar\<close> package hands over for one VEVENT. The value of
  \<open>component.get("attendee", [])\<close> is the default when the event has no attendee, a
  list when it has several, and the single value itself when it has one. A value is a
  \<open>vCalAddress\<close> (a string with parameters, of which only \<open>CN\<close> is read) or a plain
  string.
\<close>

datatype attendee = VCalAddress str "str option" | PlainStr str

datatype attendee_prop = NoAttendee | OneAttendee attendee | AttendeeList "attendee list"

record vevent =
  summary :: "str option"
  dtstart :: "dt option"
  dtend :: "dt option"
  location :: "str option"
  description :: "str option"
  attendee :: attendee_prop

text \<open>
  What the code reads from outside: the Unicode tables; files (\<open>open_r\<close> is the content
  a text-mode \<open>read()\<close> returns, \<open>open_rb\<close> the bytes, \<open>open_w\<close> the error of opening for
  writing, if any); \<open>from_ical\<close> is \<open>Calendar.from_ical\<close> followed by \<open>walk("VEVENT")\<close>;
  \<open>local_utcoffset\<close> is the UTC offset of the system's zone at a local wall-clock
  reading, or the exception the platform raises in finding it;
  \<open>in_timestamp_bounds\<close> says which instants a datetime column of the installed pandas
  holds (with nanoseconds in a signed 64-bit integer, the years 1677 to 2262; with a
  coarser unit, every datetime); \<open>strptime_ymd\<close> is \<open>datetime.strptime\<close> with the
  format \<open>%Y-%m-%d\<close>.
\<close>

record env =
  unicode :: ucd
  open_r :: "string \<Rightarrow> error + str"
  open_rb :: "string \<Rightarrow> error + nat list"
  open_w :: "string \<Rightarrow> error option"
  from_ical :: "nat list \<Rightarrow> error + vevent list"
  local_utcoffset :: "int \<Rightarrow> error + int"
  in_timestamp_bounds :: "int \<Rightarrow> bool"
  strptime_ymd :: "string \<Rightarrow> error + int"

text \<open>An exception ends the computation: the first \<open>Inl\<close> is the result.\<close>

definition and_then :: "error + 'a \<Rightarrow> ('a \<Rightarrow> error + 'b) \<Rightarrow> error + 'b" where
  "and_then r f = (case r of Inl err \<Rightarrow> Inl err | Inr x \<Rightarrow> f x)"

fun traverse :: "('a \<Rightarrow> error + 'b) \<Rightarrow> 'a list \<Rightarrow> error + 'b list" where
  "traverse f [] = Inr []"
| "traverse f (x # xs) =
     and_then (f x) (\<lambda>y. and_then (traverse f xs) (\<lambda>ys. Inr (y # ys)))"

section \<open>The calendar loader\<close>

text \<open>
  The inner loop of \<open>ics_to_dataframe\<close>. Iterating over a single value iterates over a
  string, character by character, and a character is a plain string. Reading \<open>CN\<close>
  from a \<open>vCalAddress\<close> without that parameter raises.
\<close>

definition iterate :: "attendee_prop \<Rightarrow> attendee list" where
  "iterate a =
     (case a of
        NoAttendee \<Rightarrow> []
      | AttendeeList xs \<Rightarrow> xs
      | OneAttendee (VCalAddress address cn) \<Rightarrow> map (\<lambda>c. PlainStr [c]) address
      | OneAttendee (PlainStr t) \<Rightarrow> map (\<lambda>c. PlainStr [c]) t)"

fun collect_attendees :: "attendee list \<Rightarrow> str list \<Rightarrow> error + str list" where
  "collect_attendees [] attendees = Inr attendees"
| "collect_attendees (VCalAddress address cn # rest) attendees =
     (case cn of
        None \<Rightarrow> Inl (KeyError (lit ''CN''))
      | Some name \<Rightarrow> collect_attendees rest (attendees @ [name]))"
| "collect_attendees (PlainStr t # rest) attendees = collect_attendees rest (attendees @ [t])"

text \<open>
  \<open>d.astimezone(pytz.utc)\<close>: the instant of \<open>d\<close>, read in UTC. A naive \<open>d\<close> is taken
  to be in the system's zone, whose offset has to be found first. The offset is then
  subtracted, and the result has to be a \<open>datetime\<close>, whose years run from 1 to 9999.
\<close>

definition astimezone_utc :: "env \<Rightarrow> int \<Rightarrow> int option \<Rightarrow> error + dt" where
  "astimezone_utc E wall tz =
     and_then (case tz of Some offset \<Rightarrow> Inr offset | None \<Rightarrow> local_utcoffset E wall)
       (\<lambda>offset.
          let t = wall - offset
          in if t < datetime 1 1 1 0 0 0 \<or> datetime 9999 12 31 23 59 59 < t
             then Inl OverflowError
             else Inr (DateTime t (Some 0)))"

text \<open>\<open>isinstance(d, datetime)\<close> selects the values that are converted.\<close>

definition convert_if_datetime :: "env \<Rightarrow> dt \<Rightarrow> error + dt" where
  "convert_if_datetime E d =
     (case d of
        Date n \<Rightarrow> Inr (Date n)
      | DateTime wall tz \<Rightarrow> astimezone_utc E wall tz)"

definition make_event :: "env \<Rightarrow> vevent \<Rightarrow> error + (dt, dt option) event" where
  "make_event E component =
     and_then (collect_attendees (iterate (attendee component)) []) (\<lambda>attendees.
     case dtstart component of
       None \<Rightarrow> Inl AttributeError
     | Some start_dt \<Rightarrow>
         and_then (convert_if_datetime E start_dt) (\<lambda>start_dt.
         and_then (case dtend component of
                     None \<Rightarrow> Inr None
                   | Some end_dt \<Rightarrow> and_then (convert_if_datetime E end_dt) (\<lambda>d. Inr (Some d)))
           (\<lambda>end_dt.
         Inr \<lparr>Summary = summary component, Start = start_dt, End = end_dt,
              Location = location component, Description = description component,
              Attendees = join (lit '', '') attendees\<rparr>)))"

text \<open>
  \<open>pd.to_datetime(column, utc=True)\<close> on one value: a date is midnight, a naive datetime
  is read as UTC, an aware one is converted; a missing value stays missing. An instant
  the column cannot hold raises.
\<close>

definition timestamp :: "env \<Rightarrow> int \<Rightarrow> error + int" where
  "timestamp E t = (if in_timestamp_bounds E t then Inr t else Inl OutOfBoundsDatetime)"

definition to_datetime :: "env \<Rightarrow> dt \<Rightarrow> error + int" where
  "to_datetime E d =
     (case d of
        Date n \<Rightarrow> timestamp E (n * 86400)
      | DateTime wall tz \<Rightarrow>
          timestamp E (wall - (case tz of Some offset \<Rightarrow> offset | None \<Rightarrow> 0)))"

definition to_datetime_opt :: "env \<Rightarrow> dt option \<Rightarrow> error + int option" where
  "to_datetime_opt E d =
     (case d of None \<Rightarrow> Inr None | Some x \<Rightarrow> and_then (to_datetime E x) (\<lambda>t. Inr (Some t)))"

definition with_times :: "('a, 'b) event \<Rightarrow> 's \<Rightarrow> 'e \<Rightarrow> ('s, 'e) event" where
  "with_times row s e =
     \<lparr>Summary = Summary row, Start = s, End = e, Location = Location row,
      Description = Description row, Attendees = Attendees row\<rparr>"

text \<open>
  The date filter: the UTC timestamp of the start, without its zone, is compared with
  the two bounds, which are naive datetimes.
\<close>

definition in_date_range :: "int \<Rightarrow> int \<Rightarrow> (int, 'e) event \<Rightarrow> bool" where
  "in_date_range start_date end_date row = (start_date \<le> Start row \<and> Start row < end_date)"

definition ics_to_dataframe ::
  "env \<Rightarrow> string \<Rightarrow> int option \<Rightarrow> int option \<Rightarrow> error + (int, int option) event list" where
  "ics_to_dataframe E ics_file start_date end_date =
     and_then (open_rb E ics_file) (\<lambda>content.
     and_then (from_ical E content) (\<lambda>components.
     and_then (traverse (make_event E) components) (\<lambda>events.
     if events = [] then Inl (KeyError (lit ''Start''))
     else
       and_then (traverse (to_datetime E) (map Start events)) (\<lambda>starts.
       and_then (traverse (to_datetime_opt E) (map End events)) (\<lambda>ends.
       let df = map (\<lambda>(row, s, e). with_times row s e) (zip events (zip starts ends))
       in case (start_date, end_date) of
            (Some s, Some e) \<Rightarrow> Inr (filter (in_date_range s e) df)
          | _ \<Rightarrow> Inr df)))))"

section \<open>Extraction from text files\<close>

fun extract_text_loop :: "env \<Rightarrow> string list \<Rightarrow> str list \<Rightarrow> error + str list" where
  "extract_text_loop E [] emails = Inr emails"
| "extract_text_loop E (file_path # rest) emails =
     and_then (open_r E file_path) (\<lambda>content.
       extract_text_loop E rest (emails @ findall (unicode E) email_pattern content))"

definition extract_emails_from_text :: "env \<Rightarrow> string list \<Rightarrow> error + str list" where
  "extract_emails_from_text E file_paths = extract_text_loop E file_paths []"

fun newline_loop :: "ucd \<Rightarrow> str list \<Rightarrow> str list \<Rightarrow> str list" where
  "newline_loop U [] emails = emails"
| "newline_loop U (line # rest) emails =
     (let email = strip U line
      in if re_match U email_pattern email
         then newline_loop U rest (emails @ [email])
         else newline_loop U rest emails)"

definition extract_emails_from_newline_separated_text :: "env \<Rightarrow> string \<Rightarrow> error + str list" where
  "extract_emails_from_newline_separated_text E file_path =
     and_then (open_r E file_path) (\<lambda>content.
       Inr (newline_loop (unicode E) (file_lines content) []))"

section \<open>The command\<close>

text \<open>
  \<open>extract_emails\<close> of the command-line module. An option that is absent or empty is
  not used. The result is the set whose members are written to the output file, one
  to a line, in the order the set happens to iterate.
\<close>

definition parse_date :: "env \<Rightarrow> string option \<Rightarrow> error + int option" where
  "parse_date E arg =
     (case arg of
        None \<Rightarrow> Inr None
      | Some text \<Rightarrow>
          if text = [] then Inr None
          else and_then (strptime_ymd E text) (\<lambda>d. Inr (Some d)))"

definition merge :: "str list \<Rightarrow> str list \<Rightarrow> str list \<Rightarrow> str set" where
  "merge emails_from_u_session emails_from_calendar emails_from_last_years_minis =
     set (emails_from_u_session @ emails_from_calendar @ emails_from_last_years_minis)"

definition extract_emails ::
  "env \<Rightarrow> string \<Rightarrow> string option \<Rightarrow> string option \<Rightarrow> string list \<Rightarrow> string option \<Rightarrow> string
     \<Rightarrow> error + str set" where
  "extract_emails E ics_file start_date end_date name_email_file newline_email_file output_file =
     and_then (parse_date E start_date) (\<lambda>start_date.
     and_then (parse_date E end_date) (\<lambda>end_date.
     and_then (ics_to_dataframe E ics_file start_date end_date) (\<lambda>df.
     let df = extract_email_addresses (unicode E) df;
         df = clean_and_explode_emails (unicode E) df;
         emails_from_calendar = unique [] (map Emails df)
     in and_then (if name_email_file \<noteq> [] then extract_emails_from_text E name_email_file
                  else Inr [])
          (\<lambda>emails_from_last_years_minis.
        and_then (case newline_email_file of
                    None \<Rightarrow> Inr []
                  | Some f \<Rightarrow>
                      if f \<noteq> [] then extract_emails_from_newline_separated_text E f
                      else Inr [])
          (\<lambda>emails_from_u_session.
        let emails = merge emails_from_u_session emails_from_calendar
                       emails_from_last_years_minis
        in case open_w E output_file of
             Some err \<Rightarrow> Inl err
           | None \<Rightarrow> Inr emails)))))"

section \<open>The start date as the specification words it\<close>

text \<open>
  ``The calendar-local date'' of a start value: the day of a date, the day of the
  wall-clock reading of a datetime, whatever its zone. The date filter of the source
  does not compute it; it is defined here to state the specification's sentence.
\<close>

definition calendar_local_date :: "dt \<Rightarrow> int" where
  "calendar_local_date d = (case d of Date n \<Rightarrow> n | DateTime wall tz \<Rightarrow> wall div 86400)"

text \<open>
  The UTC instant of a start value that has one by itself: midnight for a date; for a
  datetime with a zone, the wall-clock reading less its UTC offset. A datetime without
  a zone names no instant.
\<close>

definition utc_instant :: "dt \<Rightarrow> int option" where
  "utc_instant d =
     (case d of
        Date n \<Rightarrow> Some (n * 86400)
      | DateTime wall tz \<Rightarrow>
          (case tz of Some offset \<Rightarrow> Some (wall - offset) | None \<Rightarrow> None))"

section \<open>Sample environments\<close>

text \<open>
  For statements at concrete inputs: tables in which no code point from 128 on is
  alphanumeric or white space (the sample texts are ASCII), and an environment with a
  given calendar, given text files, a fixed offset of the system's zone that is always
  found, and a datetime column that holds every instant.
\<close>

definition ascii_ucd :: ucd where
  "ascii_ucd = \<lparr>uni_alnum = (\<lambda>c. False), uni_space = (\<lambda>c. False)\<rparr>"

definition sample_env :: "vevent list \<Rightarrow> (string \<times> string) list \<Rightarrow> int \<Rightarrow> env" where
  "sample_env components files offset =
     \<lparr>unicode = ascii_ucd,
      open_r = (\<lambda>f. case map_of files f of None \<Rightarrow> Inl (OSError f) | Some c \<Rightarrow> Inr (lit c)),
      open_rb = (\<lambda>f. Inr []),
      open_w = (\<lambda>f. None),
      from_ical = (\<lambda>content. Inr components),
      local_utcoffset = (\<lambda>t. Inr offset),
      in_timestamp_bounds = (\<lambda>t. True),
      strptime_ymd = (\<lambda>text. Inl ValueError)\<rparr>"

definition sample_event :: "dt \<Rightarrow> string \<Rightarrow> vevent" where
  "sample_event start cn =
     \<lparr>summary = None, dtstart = Some start, dtend = None, location = None,
      description = None,
      attendee = AttendeeList [VCalAddress (lit ''mailto:x@example.com'') (Some (lit cn)),
                               VCalAddress (lit ''mailto:y@example.com'') (Some (lit ''Y''))]\<rparr>"

section \<open>The newline-delimited extractor\<close>

lemma newline_loop_filter:
  "newline_loop U ls acc = acc @ filter (re_match U email_pattern) (map (strip U) ls)"
  by (induction ls arbitrary: acc) (simp_all add: Let_def)

text \<open>
  Claim C2. Whenever the file can be read, the newline-delimited extractor returns, in
  line order, the stripped lines that \<open>re.match\<close> accepts (a match of the email pattern
  at position 0), and nothing else; a line that does not match is skipped without an
  error. On \<open>a@b.com\<newline>not-an-email\<newline>  c@d.org  \<newline>\<close> the result is \<open>a@b.com\<close>, \<open>c@d.org\<close>.
\<close>

theorem newline_extractor_accepts_iff_match:
  assumes "open_r E file_path = Inr content"
  shows "extract_emails_from_newline_separated_text E file_path =
           Inr (filter (re_match (unicode E) email_pattern)
                  (map (strip (unicode E)) (file_lines content)))
         \<and> (content = lit ''a@b.com\<newline>not-an-email\<newline>  c@d.org  \<newline>'' \<longrightarrow>
              extract_emails_from_newline_separated_text E file_path =
                Inr [lit ''a@b.com'', lit ''c@d.org''])"
proof -
  have general: "extract_emails_from_newline_separated_text E file_path =
      Inr (newline_loop (unicode E) (file_lines content) [])"
    using assms by (simp add: extract_emails_from_newline_separated_text_def and_then_def)
  have example: "newline_loop U
      (file_lines (lit ''a@b.com\<newline>not-an-email\<newline>  c@d.org  \<newline>'')) [] =
      [lit ''a@b.com'', lit ''c@d.org'']" for U
    by code_simp
  show ?thesis
    using general example by (simp add: newline_loop_filter)
qed

theorem newline_extractor_accepts_iff_match_witness:
  "open_r (sample_env [] [(''u.txt'', ''a@b.com\<newline>not-an-email\<newline>  c@d.org  \<newline>'')] 0) ''u.txt'' =
     Inr (lit ''a@b.com\<newline>not-an-email\<newline>  c@d.org  \<newline>'')
   \<and> extract_emails_from_newline_separated_text
       (sample_env [] [(''u.txt'', ''a@b.com\<newline>not-an-email\<newline>  c@d.org  \<newline>'')] 0) ''u.txt'' =
     Inr [lit ''a@b.com'', lit ''c@d.org'']"
proof -
  have h: "open_r (sample_env [] [(''u.txt'', ''a@b.com\<newline>not-an-email\<newline>  c@d.org  \<newline>'')] 0) ''u.txt'' =
     Inr (lit ''a@b.com\<newline>not-an-email\<newline>  c@d.org  \<newline>'')"
    by (simp add: sample_env_def)
  show ?thesis
    using h newline_extractor_accepts_iff_match [OF h, THEN conjunct2] by simp
qed

text \<open>
  Claim C7. When the file can be read, every line of it whose stripped form starts
  with a match of the pattern is accepted, and what the extractor returns for it is the
  whole stripped line, whatever follows the match. For \<open>a@b.com extra text\<close> the match
  ends after \<open>a@b.com\<close>, the pattern does not match the line as a whole, and the
  extractor returns the line \<open>a@b.com extra text\<close>.
\<close>

theorem newline_extractor_keeps_whole_line:
  assumes "open_r E file_path = Inr content"
    and "line \<in> set (file_lines content)"
    and "re_match (unicode E) email_pattern (strip (unicode E) line)"
  shows "(\<exists>emails. extract_emails_from_newline_separated_text E file_path = Inr emails
            \<and> strip (unicode E) line \<in> set emails)
         \<and> (content = lit ''a@b.com extra text\<newline>'' \<longrightarrow>
              extract_emails_from_newline_separated_text E file_path =
                Inr [lit ''a@b.com extra text''])"
proof -
  have result: "extract_emails_from_newline_separated_text E file_path =
      Inr (filter (re_match (unicode E) email_pattern)
             (map (strip (unicode E)) (file_lines content)))"
    using assms(1)
    by (simp add: extract_emails_from_newline_separated_text_def and_then_def newline_loop_filter)
  have member: "strip (unicode E) line \<in>
      set (filter (re_match (unicode E) email_pattern)
             (map (strip (unicode E)) (file_lines content)))"
    using assms(2,3) by simp
  have example: "filter (re_match U email_pattern)
      (map (strip U) (file_lines (lit ''a@b.com extra text\<newline>''))) =
      [lit ''a@b.com extra text'']" for U
    by code_simp
  show ?thesis
    using result member example by simp
qed

theorem newline_extractor_keeps_whole_line_witness:
  "open_r (sample_env [] [(''u.txt'', ''a@b.com extra text\<newline>'')] 0) ''u.txt'' =
     Inr (lit ''a@b.com extra text\<newline>'')
   \<and> lit ''a@b.com extra text\<newline>'' \<in> set (file_lines (lit ''a@b.com extra text\<newline>''))
   \<and> strip ascii_ucd (lit ''a@b.com extra text\<newline>'') = lit ''a@b.com extra text''
   \<and> re_match ascii_ucd email_pattern (lit ''a@b.com extra text'')
   \<and> match_at ascii_ucd email_pattern (lit ''a@b.com extra text'') 0 False = Some 7
   \<and> \<not> re_fullmatch ascii_ucd email_pattern (lit ''a@b.com extra text'')
   \<and> extract_emails_from_newline_separated_text
       (sample_env [] [(''u.txt'', ''a@b.com extra text\<newline>'')] 0) ''u.txt'' =
     Inr [lit ''a@b.com extra text'']"
proof -
  let ?E = "sample_env [] [(''u.txt'', ''a@b.com extra text\<newline>'')] 0"
  let ?line = "lit ''a@b.com extra text\<newline>''"
  have u: "unicode ?E = ascii_ucd"
    by (simp add: sample_env_def)
  have h1: "open_r ?E ''u.txt'' = Inr ?line"
    by (simp add: sample_env_def)
  have h2: "?line \<in> set (file_lines ?line)"
    by code_simp
  have s: "strip ascii_ucd ?line = lit ''a@b.com extra text''"
    by code_simp
  have m: "re_match ascii_ucd email_pattern (lit ''a@b.com extra text'')"
    by code_simp
  have p: "match_at ascii_ucd email_pattern (lit ''a@b.com extra text'') 0 False = Some 7"
    by code_simp
  have n: "\<not> re_fullmatch ascii_ucd email_pattern (lit ''a@b.com extra text'')"
    by code_simp
  have h3: "re_match (unicode ?E) email_pattern (strip (unicode ?E) ?line)"
    unfolding u s by (rule m)
  from newline_extractor_keeps_whole_line [OF h1 h2 h3, THEN conjunct2]
  have r: "extract_emails_from_newline_separated_text ?E ''u.txt'' =
      Inr [lit ''a@b.com extra text'']"
    by simp
  show ?thesis
    by (rule conjI [OF h1 conjI [OF h2 conjI [OF s conjI [OF m conjI [OF p conjI [OF n r]]]]]])
qed

section \<open>The free-form extractor\<close>

lemma extract_text_loop_ok:
  "map (open_r E) file_paths = map Inr contents \<Longrightarrow>
   extract_text_loop E file_paths emails =
     Inr (emails @ concat (map (findall (unicode E) email_pattern) contents))"
proof (induction file_paths arbitrary: emails contents)
  case Nil
  then show ?case by simp
next
  case (Cons file_path rest)
  then obtain content others where c: "contents = content # others"
    by (cases contents) auto
  with Cons.prems have "open_r E file_path = Inr content" "map (open_r E) rest = map Inr others"
    by auto
  with Cons.IH [of others] c show ?case
    by (simp add: and_then_def)
qed

text \<open>
  Claim C8. When every file can be read, the free-form extractor returns the matches
  \<open>re.findall\<close> reports in the whole content of each file, concatenated in the order of
  the files, nothing removed. In \<open>Contact: a@b.com, also c@d.org.\<close> the matches are
  \<open>a@b.com\<close> and \<open>c@d.org\<close>, the latter without the full stop.
\<close>

theorem free_form_extractor_concatenates_matches:
  assumes "map (open_r E) file_paths = map Inr contents"
  shows "extract_emails_from_text E file_paths =
           Inr (concat (map (findall (unicode E) email_pattern) contents))
         \<and> findall U email_pattern (lit ''Contact: a@b.com, also c@d.org.'') =
             [lit ''a@b.com'', lit ''c@d.org'']"
proof -
  have example: "findall U email_pattern (lit ''Contact: a@b.com, also c@d.org.'') =
      [lit ''a@b.com'', lit ''c@d.org'']"
    by code_simp
  show ?thesis
    using extract_text_loop_ok [OF assms, of "[]"] example
    by (simp add: extract_emails_from_text_def)
qed

theorem free_form_extractor_concatenates_matches_witness:
  "extract_emails_from_text
     (sample_env [] [(''a.txt'', ''Contact: a@b.com, also c@d.org.''), (''b.txt'', ''again a@b.com'')] 0)
     [''a.txt'', ''b.txt''] =
   Inr [lit ''a@b.com'', lit ''c@d.org'', lit ''a@b.com'']"
proof -
  let ?E = "sample_env [] [(''a.txt'', ''Contact: a@b.com, also c@d.org.''), (''b.txt'', ''again a@b.com'')] 0"
  have h: "map (open_r ?E) [''a.txt'', ''b.txt''] =
      map Inr [lit ''Contact: a@b.com, also c@d.org.'', lit ''again a@b.com'']"
    by (simp add: sample_env_def)
  have f: "concat (map (findall (unicode ?E) email_pattern)
      [lit ''Contact: a@b.com, also c@d.org.'', lit ''again a@b.com'']) =
      [lit ''a@b.com'', lit ''c@d.org'', lit ''a@b.com'']"
    by code_simp
  show ?thesis
    using free_form_extractor_concatenates_matches [OF h, THEN conjunct1] f by simp
qed

section \<open>The cleaner\<close>

lemma clean_and_explode_emails_rows:
  "clean_and_explode_emails U df =
     concat (map (\<lambda>row. map (\<lambda>piece. row\<lparr>Emails := strip U piece\<rparr>)
                         (split (of_char CHR '','') (Emails row)))
               (filter (\<lambda>row. Emails row \<noteq> []) df))"
  by (simp add: clean_and_explode_emails_def strip_emails_def split_and_explode_def
      drop_empty_def map_concat comp_def)

text \<open>
  Claim C6. \<open>clean_and_explode_emails\<close> drops the rows whose \<open>Emails\<close> is empty; each
  remaining row gives one row for each piece of its \<open>Emails\<close> between commas, in order,
  with the piece stripped as the new \<open>Emails\<close> and the other fields repeated. A row with
  \<open>a@b.com, c@d.org\<close> gives exactly the two rows \<open>a@b.com\<close> and \<open>c@d.org\<close>.
\<close>

theorem cleaner_drops_empty_and_explodes:
  "clean_and_explode_emails U df =
     concat (map (\<lambda>row. map (\<lambda>piece. row\<lparr>Emails := strip U piece\<rparr>)
                         (split (of_char CHR '','') (Emails row)))
               (filter (\<lambda>row. Emails row \<noteq> []) df))
   \<and> map Emails (clean_and_explode_emails U
        [event.extend row (event_emails.fields (lit ''a@b.com, c@d.org''))]) =
       [lit ''a@b.com'', lit ''c@d.org'']"
proof -
  have pieces: "map (strip U) (split (of_char CHR '','') (lit ''a@b.com, c@d.org'')) =
      [lit ''a@b.com'', lit ''c@d.org'']"
    by code_simp
  have nonempty: "lit ''a@b.com, c@d.org'' \<noteq> []"
    by (simp add: lit_def)
  have example: "map Emails (clean_and_explode_emails U
        [event.extend row (event_emails.fields (lit ''a@b.com, c@d.org''))]) =
       map (strip U) (split (of_char CHR '','') (lit ''a@b.com, c@d.org''))"
    using nonempty
    by (simp add: clean_and_explode_emails_rows event.defs event_emails.defs comp_def)
  show ?thesis
    using clean_and_explode_emails_rows [of U df] example pieces by simp
qed

section \<open>Merging\<close>

text \<open>
  Claim C9. The merge is the set of the members of the three lists; merging a
  collection with itself gives that collection again; merging \<open>e@f.com\<close> from the
  newline file, \<open>a@b.com\<close> from the calendar and \<open>a@b.com\<close>, \<open>c@d.org\<close> from the text
  files gives the three addresses, each once, and so does the whole command on such
  inputs.
\<close>

theorem merge_is_idempotent_union:
  "merge us cs ts = set us \<union> set cs \<union> set ts
   \<and> merge xs xs [] = set xs
   \<and> merge xs xs xs = set xs
   \<and> merge [lit ''e@f.com''] [lit ''a@b.com''] [lit ''a@b.com'', lit ''c@d.org''] =
       {lit ''a@b.com'', lit ''c@d.org'', lit ''e@f.com''}
   \<and> card (merge [lit ''e@f.com''] [lit ''a@b.com''] [lit ''a@b.com'', lit ''c@d.org'']) = 3
   \<and> extract_emails
        (sample_env [sample_event (date 2023 9 1) ''A <a@b.com>'']
           [(''names.txt'', ''A a@b.com; C c@d.org''), (''u.txt'', ''e@f.com\<newline>'')] 0)
        ''cal.ics'' None None [''names.txt''] (Some ''u.txt'') ''out.txt'' =
       Inr {lit ''a@b.com'', lit ''c@d.org'', lit ''e@f.com''}"
proof -
  have size: "card (merge [lit ''e@f.com''] [lit ''a@b.com''] [lit ''a@b.com'', lit ''c@d.org'']) = 3"
    by code_simp
  have command: "extract_emails
        (sample_env [sample_event (date 2023 9 1) ''A <a@b.com>'']
           [(''names.txt'', ''A a@b.com; C c@d.org''), (''u.txt'', ''e@f.com\<newline>'')] 0)
        ''cal.ics'' None None [''names.txt''] (Some ''u.txt'') ''out.txt'' =
       Inr {lit ''a@b.com'', lit ''c@d.org'', lit ''e@f.com''}"
    by code_simp
  have sets: "merge us cs ts = set us \<union> set cs \<union> set ts" "merge xs xs [] = set xs"
    "merge xs xs xs = set xs"
    "merge [lit ''e@f.com''] [lit ''a@b.com''] [lit ''a@b.com'', lit ''c@d.org''] =
       {lit ''a@b.com'', lit ''c@d.org'', lit ''e@f.com''}"
    by (auto simp: merge_def)
  show ?thesis
    by (intro conjI sets size command)
qed

section \<open>A calendar without events\<close>

text \<open>
  Claim C10. When the calendar has no VEVENT component, \<open>ics_to_dataframe\<close> does not
  return an empty frame: the frame built from no events has no column \<open>Start\<close>, and
  reading it raises \<open>KeyError\<close>.
\<close>

theorem no_vevent_raises_key_error:
  assumes "open_rb E ics_file = Inr content" and "from_ical E content = Inr []"
  shows "ics_to_dataframe E ics_file start_date end_date = Inl (KeyError (lit ''Start''))"
  using assms by (simp add: ics_to_dataframe_def and_then_def)

theorem no_vevent_raises_key_error_witness:
  "open_rb (sample_env [] [] 0) ''empty.ics'' = Inr []
   \<and> from_ical (sample_env [] [] 0) [] = Inr []
   \<and> ics_to_dataframe (sample_env [] [] 0) ''empty.ics'' None None = Inl (KeyError (lit ''Start''))"
proof -
  have h1: "open_rb (sample_env [] [] 0) ''empty.ics'' = Inr []"
    by (simp add: sample_env_def)
  have h2: "from_ical (sample_env [] [] 0) [] = Inr []"
    by (simp add: sample_env_def)
  show ?thesis
    using h1 h2 no_vevent_raises_key_error [OF h1 h2, of None None] by simp
qed

section \<open>Facts about the engine and the pattern\<close>

text \<open>A match never ends before it starts, and it consumes admitted characters only.\<close>

lemma ends_ge: "e \<in> set (ends U a s i) \<Longrightarrow> i \<le> e"
  by (cases a) (auto split: if_splits)

lemma ends_seq_ge: "e \<in> set (ends_seq U p s i) \<Longrightarrow> i \<le> e"
proof (induction p arbitrary: i)
  case Nil
  then show ?case by simp
next
  case (Cons a p)
  then obtain k where "k \<in> set (ends U a s i)" "e \<in> set (ends_seq U p s k)"
    by auto
  with Cons.IH [of k] ends_ge [of k U a s i] show ?case by simp
qed

lemma ends_chars:
  assumes "e \<in> set (ends U a s i)" and "i \<le> k" and "k < e"
  shows "k < length s \<and> admits a (s ! k)"
proof (cases a)
  case WordBoundary
  with assms show ?thesis by (auto split: if_splits)
next
  case (Literal c)
  with assms show ?thesis by (auto split: if_splits simp: less_Suc_eq)
next
  case (ClassRep cls n)
  let ?run = "takeWhile cls (drop i s)"
  from assms ClassRep have "e \<le> i + length ?run" by auto
  with assms have k: "k - i < length ?run" by simp
  then have "?run ! (k - i) \<in> set ?run" by simp
  then have "cls (?run ! (k - i))" by (rule set_takeWhileD [THEN conjunct2])
  moreover have "?run ! (k - i) = drop i s ! (k - i)" using k by (rule takeWhile_nth)
  moreover have "k - i < length (drop i s)"
    using k length_takeWhile_le [of cls "drop i s"] by simp
  ultimately show ?thesis using assms ClassRep by simp
qed

lemma ends_seq_chars:
  "e \<in> set (ends_seq U p s i) \<Longrightarrow> i \<le> k \<Longrightarrow> k < e \<Longrightarrow>
   k < length s \<and> (\<exists>a \<in> set p. admits a (s ! k))"
proof (induction p arbitrary: i)
  case Nil
  then show ?case by simp
next
  case (Cons a p)
  then obtain j where j: "j \<in> set (ends U a s i)" "e \<in> set (ends_seq U p s j)"
    by auto
  show ?case
  proof (cases "k < j")
    case True
    with ends_chars [OF j(1) Cons.prems(2)] show ?thesis by simp
  next
    case False
    with Cons.IH [OF j(2)] Cons.prems(3) show ?thesis by simp
  qed
qed

text \<open>The email pattern has a literal, so its matches are never empty.\<close>

lemma ends_seq_literal:
  "Literal c \<in> set p \<Longrightarrow> e \<in> set (ends_seq U p s i) \<Longrightarrow> i < e"
proof (induction p arbitrary: i)
  case Nil
  then show ?case by simp
next
  case (Cons a p)
  then obtain j where j: "j \<in> set (ends U a s i)" "e \<in> set (ends_seq U p s j)"
    by auto
  show ?case
  proof (cases "a = Literal c")
    case True
    with j(1) have "i < j" by (auto split: if_splits)
    with ends_seq_ge [OF j(2)] show ?thesis by simp
  next
    case False
    with Cons.prems(1) have "Literal c \<in> set p" by simp
    with Cons.IH [OF _ j(2)] ends_ge [OF j(1)] show ?thesis by simp
  qed
qed

lemma email_pattern_advances:
  "e \<in> set (ends_seq U email_pattern s i) \<Longrightarrow> i < e"
proof -
  assume e: "e \<in> set (ends_seq U email_pattern s i)"
  have "Literal (of_char CHR ''@'') \<in> set email_pattern"
    by (simp add: email_pattern_def)
  then show "i < e" using e by (rule ends_seq_literal)
qed

text \<open>No character of a match is a comma or white space.\<close>

lemma class_chars:
  "local_class c \<or> domain_class c \<or> tld_class c \<or> c = of_char CHR ''@'' \<or> c = of_char CHR ''.''
   \<Longrightarrow> c < 128 \<and> 32 < c \<and> c \<noteq> 44"
  unfolding local_class_def domain_class_def tld_class_def rng_def one_of_def lit_def
  by (simp, arith)

lemma email_pattern_chars:
  assumes "a \<in> set email_pattern" and "admits a c"
  shows "c \<noteq> of_char CHR '','' \<and> \<not> is_space U c"
proof -
  from assms have "local_class c \<or> domain_class c \<or> tld_class c \<or> c = of_char CHR ''@''
      \<or> c = of_char CHR ''.''"
    by (auto simp: email_pattern_def)
  then have "c < 128 \<and> 32 < c \<and> c \<noteq> 44" by (rule class_chars)
  then show ?thesis by (simp add: is_space_def)
qed

text \<open>What \<open>findall\<close> returns are matched substrings of the text.\<close>

lemma match_at_ends:
  "match_at U p s i adv = Some e \<Longrightarrow> e \<in> set (ends_seq U p s i)"
proof -
  assume "match_at U p s i adv = Some e"
  then obtain es where "filter (\<lambda>e. \<not> (adv \<and> e \<le> i)) (ends_seq U p s i) = e # es"
    by (auto simp: match_at_def split: list.splits)
  then have "e \<in> set (filter (\<lambda>e. \<not> (adv \<and> e \<le> i)) (ends_seq U p s i))"
    by simp
  then show ?thesis by simp
qed

lemma findall_from_matches:
  assumes advances: "\<And>i e. e \<in> set (ends_seq U p s i) \<Longrightarrow> i < e"
  shows "m \<in> set (findall_from U p s i adv) \<Longrightarrow>
    \<exists>j e. j < e \<and> e \<in> set (ends_seq U p s j) \<and> m = take (e - j) (drop j s)"
  using advances
proof (induction U p s i adv rule: findall_from.induct)
  case (1 U p s i adv)
  note unfolded = findall_from.simps [of U p s i adv]
  show ?case
  proof (cases "length s < i")
    case True
    with "1.prems"(1) show ?thesis by (simp add: unfolded)
  next
    case False
    show ?thesis
    proof (cases "match_at U p s i adv")
      case None
      with False "1.prems"(1) have "m \<in> set (findall_from U p s (Suc i) False)"
        by (simp add: unfolded)
      with "1.IH"(1) [OF False None] "1.prems"(2) show ?thesis by blast
    next
      case (Some e)
      then have e: "e \<in> set (ends_seq U p s i)" by (rule match_at_ends)
      then have lt: "i < e" by (rule "1.prems"(2))
      with False Some "1.prems"(1)
      have "m = take (e - i) (drop i s) \<or> m \<in> set (findall_from U p s e False)"
        by (simp add: unfolded)
      then show ?thesis
      proof
        assume "m = take (e - i) (drop i s)"
        with e lt show ?thesis by blast
      next
        assume "m \<in> set (findall_from U p s e False)"
        with "1.IH"(2) [OF False Some lt] "1.prems"(2) show ?thesis by blast
      qed
    qed
  qed
qed

lemma findall_email_chars:
  assumes "m \<in> set (findall U email_pattern s)"
  shows "m \<noteq> [] \<and> (\<forall>c \<in> set m. c \<noteq> of_char CHR '','' \<and> \<not> is_space U c)"
proof -
  from assms have found: "m \<in> set (findall_from U email_pattern s 0 False)"
    by (simp add: findall_def)
  have "\<exists>j e. j < e \<and> e \<in> set (ends_seq U email_pattern s j) \<and> m = take (e - j) (drop j s)"
  proof (rule findall_from_matches)
    show "m \<in> set (findall_from U email_pattern s 0 False)" by (rule found)
  next
    fix i e
    assume "e \<in> set (ends_seq U email_pattern s i)"
    then show "i < e" by (rule email_pattern_advances)
  qed
  then obtain j e where je: "j < e" "e \<in> set (ends_seq U email_pattern s j)"
    "m = take (e - j) (drop j s)"
    by blast
  have in_s: "k < length s" if "j \<le> k" "k < e" for k
    using ends_seq_chars [OF je(2) that] by simp
  have "j \<le> e - 1" "e - 1 < e" using je(1) by auto
  then have "e - 1 < length s" by (rule in_s)
  then have len: "e \<le> length s" by simp
  with je(3) have length_m: "length m = e - j" by simp
  with je(1) have "m \<noteq> []" by auto
  moreover have "c \<noteq> of_char CHR '','' \<and> \<not> is_space U c" if "c \<in> set m" for c
  proof -
    from that obtain n where n: "n < length m" "m ! n = c" by (auto simp: in_set_conv_nth)
    from n length_m have lt: "j + n < e" by simp
    from n(1) length_m have "take (e - j) (drop j s) ! n = s ! (j + n)"
      using len by simp
    with n(2) je(3) have c: "c = s ! (j + n)" by simp
    from ends_seq_chars [OF je(2) _ lt]
    obtain a where a: "a \<in> set email_pattern" "admits a (s ! (j + n))" by auto
    show ?thesis unfolding c by (rule email_pattern_chars [OF a])
  qed
  ultimately show ?thesis by blast
qed


subsection \<open>Joining, splitting and stripping\<close>

lemma split_not_empty: "split c s \<noteq> []"
  by (induction s) (auto split: list.splits)

lemma split_no_separator: "c \<notin> set m \<Longrightarrow> split c m = [m]"
  by (induction m) auto

lemma split_at_separator: "c \<notin> set m \<Longrightarrow> split c (m @ c # rest) = m # split c rest"
  by (induction m) auto

lemma split_join:
  assumes "\<forall>m \<in> set ms. 44 \<notin> set m" and "ms \<noteq> []"
  shows "split 44 (join [44, 32] ms) = hd ms # map (\<lambda>m. 32 # m) (tl ms)"
  using assms
proof (induction "[44, 32 :: nat]" ms rule: join.induct)
  case 1
  then show ?case by simp
next
  case (2 x)
  then show ?case by (simp add: split_no_separator)
next
  case (3 x y ys)
  from 3 have ih: "split 44 (join [44, 32] (y # ys)) = y # map (\<lambda>m. 32 # m) ys"
    by simp
  from "3.prems" have x: "44 \<notin> set x" by simp
  have "join [44, 32] (x # y # ys) = x @ 44 # (32 # join [44, 32] (y # ys))"
    by simp
  then have "split 44 (join [44, 32] (x # y # ys)) = x # split 44 (32 # join [44, 32] (y # ys))"
    using split_at_separator [OF x] by simp
  also have "split 44 (32 # join [44, 32] (y # ys)) = (32 # y) # map (\<lambda>m. 32 # m) ys"
    using ih by simp
  finally show ?case by simp
qed

lemma join_empty:
  assumes "\<forall>m \<in> set ms. m \<noteq> []"
  shows "join sep ms = [] \<longleftrightarrow> ms = []"
  using assms by (induction sep ms rule: join.induct) auto

lemma dropWhile_none: "\<forall>x \<in> set xs. \<not> P x \<Longrightarrow> dropWhile P xs = xs"
  by (cases xs) auto

lemma strip_no_space:
  assumes "\<forall>c \<in> set m. \<not> is_space U c"
  shows "strip U m = m" and "strip U (32 # m) = m"
proof -
  from assms have rev: "dropWhile (is_space U) (rev m) = rev m"
    by (simp add: dropWhile_none)
  from assms have fwd: "dropWhile (is_space U) m = m"
    by (simp add: dropWhile_none)
  have space: "is_space U 32" by (simp add: is_space_def)
  show "strip U m = m" by (simp add: strip_def fwd rev)
  show "strip U (32 # m) = m" by (simp add: strip_def fwd rev space)
qed

lemma strip_split_join:
  assumes "\<forall>m \<in> set ms. m \<noteq> [] \<and> (\<forall>c \<in> set m. c \<noteq> of_char CHR '','' \<and> \<not> is_space U c)"
    and "ms \<noteq> []"
  shows "map (strip U) (split (of_char CHR '','') (join (lit '', '') ms)) = ms"
proof -
  have lits: "of_char CHR '','' = (44 :: nat)" "lit '', '' = [44, 32]"
    by (simp_all add: lit_def)
  from assms(1) have "\<forall>m \<in> set ms. 44 \<notin> set m" unfolding lits by blast
  then have "split 44 (join [44, 32] ms) = hd ms # map (\<lambda>m. 32 # m) (tl ms)"
    using assms(2) by (rule split_join)
  moreover from assms obtain m rest where ms: "ms = m # rest" by (cases ms) auto
  moreover from assms(1) ms have "strip U m = m" by (simp add: strip_no_space(1))
  moreover from assms(1) ms have "map (strip U \<circ> (\<lambda>m. 32 # m)) rest = rest"
    by (simp add: strip_no_space(2) map_idI)
  ultimately show ?thesis by (simp add: lits)
qed


subsection \<open>The addresses of the calendar pipeline\<close>

lemma explode_found:
  "(if join (lit '', '') (findall U email_pattern s) = [] then []
    else map (strip U) (split (of_char CHR '','') (join (lit '', '') (findall U email_pattern s)))) =
   findall U email_pattern s"
proof (cases "findall U email_pattern s = []")
  case True
  then show ?thesis by simp
next
  case False
  have clean: "\<forall>m \<in> set (findall U email_pattern s).
      m \<noteq> [] \<and> (\<forall>c \<in> set m. c \<noteq> of_char CHR '','' \<and> \<not> is_space U c)"
    using findall_email_chars by blast
  then have "join (lit '', '') (findall U email_pattern s) \<noteq> []"
    using False by (simp add: join_empty)
  with strip_split_join [OF clean False] show ?thesis by simp
qed

lemma pipeline_addresses:
  "map Emails (clean_and_explode_emails U (extract_email_addresses U df)) =
     concat (map (\<lambda>row. findall U email_pattern (Attendees row)) df)"
proof (induction df)
  case Nil
  then show ?case by (simp add: clean_and_explode_emails_rows extract_email_addresses_def)
next
  case (Cons row df)
  have "map Emails (clean_and_explode_emails U (extract_email_addresses U (row # df))) =
      (if join (lit '', '') (findall U email_pattern (Attendees row)) = [] then []
       else map (strip U) (split (of_char CHR '','')
              (join (lit '', '') (findall U email_pattern (Attendees row)))))
      @ map Emails (clean_and_explode_emails U (extract_email_addresses U df))"
    by (simp add: clean_and_explode_emails_rows extract_email_addresses_def event.defs
        event_emails.defs comp_def)
  then show ?case
    by (simp only: explode_found Cons.IH list.map concat.simps)
qed

subsection \<open>A match taken out of its text\<close>

text \<open>
  Between the two word boundaries the pattern looks at the matched characters only, so
  the body matches the substring on its own; the boundaries look one character further,
  and on its own the substring has nothing there.
\<close>

lemma ends_seq_append:
  "e \<in> set (ends_seq U (p @ q) s i) \<longleftrightarrow> (\<exists>k \<in> set (ends_seq U p s i). e \<in> set (ends_seq U q s k))"
  by (induction p arbitrary: i) auto

lemma takeWhile_take: "takeWhile P (take n xs) = take n (takeWhile P xs)"
proof (induction xs arbitrary: n)
  case Nil
  then show ?case by simp
next
  case (Cons x xs)
  then show ?case by (cases n) auto
qed

lemma ends_ClassRep_iff:
  "k \<in> set (ends U (ClassRep cls n) s i) \<longleftrightarrow>
   (\<exists>x. k = i + x \<and> n \<le> x \<and> x \<le> length (takeWhile cls (drop i s)))"
  by auto

lemma ends_window:
  assumes "k \<in> set (ends U a s j)" and "a \<noteq> WordBoundary"
    and "lo \<le> j" and "k \<le> hi" and "hi \<le> length s"
  shows "k - lo \<in> set (ends U a (take (hi - lo) (drop lo s)) (j - lo))"
proof (cases a)
  case WordBoundary
  with assms show ?thesis by simp
next
  case (Literal c)
  with assms have "j < hi" "s ! j = c" "k = Suc j" by (auto split: if_splits)
  with assms Literal show ?thesis by (simp add: Suc_diff_le)
next
  case (ClassRep cls n)
  let ?run = "takeWhile cls (drop j s)"
  from assms(1) have "k \<in> set (ends U (ClassRep cls n) s j)" unfolding ClassRep .
  then obtain x where x: "k = j + x" "n \<le> x" "x \<le> length ?run"
    unfolding ends_ClassRep_iff by blast
  have "drop (j - lo) (take (hi - lo) (drop lo s)) = take (hi - j) (drop j s)"
    using assms by (simp add: drop_take)
  then have "length (takeWhile cls (drop (j - lo) (take (hi - lo) (drop lo s)))) =
      min (hi - j) (length ?run)"
    by (simp add: takeWhile_take)
  moreover from x assms have "x \<le> min (hi - j) (length ?run)" by simp
  moreover from x assms have "k - lo = (j - lo) + x" by simp
  ultimately have "\<exists>y. k - lo = (j - lo) + y \<and> n \<le> y \<and>
      y \<le> length (takeWhile cls (drop (j - lo) (take (hi - lo) (drop lo s))))"
    using x(2) by metis
  then show ?thesis unfolding ClassRep ends_ClassRep_iff .
qed

lemma ends_seq_window:
  assumes "e \<in> set (ends_seq U p s j)" and "WordBoundary \<notin> set p"
    and "lo \<le> j" and "e \<le> hi" and "hi \<le> length s"
  shows "e - lo \<in> set (ends_seq U p (take (hi - lo) (drop lo s)) (j - lo))"
  using assms
proof (induction p arbitrary: j)
  case Nil
  then show ?case by simp
next
  case (Cons a p)
  then obtain k where k: "k \<in> set (ends U a s j)" "e \<in> set (ends_seq U p s k)"
    by auto
  from k have order: "j \<le> k" "k \<le> e" by (auto dest: ends_ge ends_seq_ge)
  from Cons.prems have a: "a \<noteq> WordBoundary" by auto
  from order Cons.prems have "k \<le> hi" by simp
  with k(1) a Cons.prems
  have "k - lo \<in> set (ends U a (take (hi - lo) (drop lo s)) (j - lo))"
    by (intro ends_window) simp_all
  moreover from Cons.IH [OF k(2)] Cons.prems order
  have "e - lo \<in> set (ends_seq U p (take (hi - lo) (drop lo s)) (k - lo))" by simp
  ultimately show ?case by auto
qed


lemma email_pattern_body: "email_pattern = WordBoundary # email_body @ [WordBoundary]"
  by (simp add: email_pattern_def email_body_def)

lemma email_match_iff:
  "e \<in> set (ends_seq U email_pattern s i) \<longleftrightarrow>
   boundary U s i \<and> e \<in> set (ends_seq U email_body s i) \<and> boundary U s e"
  unfolding email_pattern_body by (auto simp: ends_seq_append split: if_splits)

lemma ends_seq_in_text:
  assumes "e \<in> set (ends_seq U p s i)" and "i < e"
  shows "e \<le> length s"
proof -
  from assms(2) have "i \<le> e - 1" "e - 1 < e" by auto
  with ends_seq_chars [OF assms(1)] have "e - 1 < length s" by blast
  then show ?thesis by simp
qed

lemma match_standalone:
  assumes "e \<in> set (ends_seq U email_pattern s i)"
  defines "m \<equiv> take (e - i) (drop i s)"
  shows "re_fullmatch U email_pattern m \<longleftrightarrow> is_word U (hd m) \<and> is_word U (last m)"
proof -
  from assms(1) have lt: "i < e" by (rule email_pattern_advances)
  with assms(1) have le: "e \<le> length s" by (rule ends_seq_in_text)
  with lt have len: "length m = e - i" "m \<noteq> []" by (auto simp: m_def)
  from assms(1) have "e \<in> set (ends_seq U email_body s i)" by (simp add: email_match_iff)
  moreover have "WordBoundary \<notin> set email_body" by (simp add: email_body_def)
  ultimately have "e - i \<in> set (ends_seq U email_body (take (e - i) (drop i s)) (i - i))"
    using le by (intro ends_seq_window) simp_all
  then have body: "length m \<in> set (ends_seq U email_body m 0)"
    using len by (simp add: m_def)
  have first: "boundary U m 0 \<longleftrightarrow> is_word U (hd m)"
    using len(2) by (simp add: boundary_def word_at_def hd_conv_nth)
  have final: "boundary U m (length m) \<longleftrightarrow> is_word U (last m)"
    using len(2) by (simp add: boundary_def word_at_def last_conv_nth)
  show ?thesis
    unfolding re_fullmatch_def email_match_iff using body first final by simp
qed

lemma found_standalone:
  assumes "m \<in> set (findall U email_pattern s)"
  shows "re_fullmatch U email_pattern m \<longleftrightarrow> is_word U (hd m) \<and> is_word U (last m)"
proof -
  from assms have found: "m \<in> set (findall_from U email_pattern s 0 False)"
    by (simp add: findall_def)
  have "\<exists>j e. j < e \<and> e \<in> set (ends_seq U email_pattern s j) \<and> m = take (e - j) (drop j s)"
  proof (rule findall_from_matches)
    show "m \<in> set (findall_from U email_pattern s 0 False)" by (rule found)
  next
    fix i e
    assume "e \<in> set (ends_seq U email_pattern s i)"
    then show "i < e" by (rule email_pattern_advances)
  qed
  then obtain j e where "e \<in> set (ends_seq U email_pattern s j)" "m = take (e - j) (drop j s)"
    by blast
  then show ?thesis using match_standalone by simp
qed

text \<open>
  Claim C1, as amended. For every sequence of events, the addresses the calendar pipeline
  produces are exactly the substrings of the attendees' texts that the pattern matched
  there, in order: joining them with a comma and a space, splitting at the commas and
  stripping gives them back unchanged. Such an address matches the pattern on its own
  exactly when it begins and ends with a word character.
\<close>

theorem calendar_addresses_are_the_matches:
  "map Emails (clean_and_explode_emails U (extract_email_addresses U df)) =
     concat (map (\<lambda>row. findall U email_pattern (Attendees row)) df)
   \<and> (\<forall>m \<in> set (map Emails (clean_and_explode_emails U (extract_email_addresses U df))).
        re_fullmatch U email_pattern m \<longleftrightarrow> is_word U (hd m) \<and> is_word U (last m))"
proof -
  have "re_fullmatch U email_pattern m \<longleftrightarrow> is_word U (hd m) \<and> is_word U (last m)"
    if "m \<in> set (concat (map (\<lambda>row. findall U email_pattern (Attendees row)) df))" for m
  proof -
    from that obtain row where "row \<in> set df" "m \<in> set (findall U email_pattern (Attendees row))"
      by auto
    then show ?thesis using found_standalone by blast
  qed
  then show ?thesis unfolding pipeline_addresses by blast
qed

theorem calendar_addresses_are_the_matches_witness:
  "map Emails (clean_and_explode_emails ascii_ucd (extract_email_addresses ascii_ucd
     [\<lparr>Summary = None, Start = (0 :: int), End = (None :: int option), Location = None,
       Description = None, Attendees = lit ''Ann <ann@x.org>, a@b.com-@y.org''\<rparr>])) =
     [lit ''ann@x.org'', lit ''a@b.com'', lit ''-@y.org'']
   \<and> re_fullmatch ascii_ucd email_pattern (lit ''ann@x.org'')
   \<and> \<not> re_fullmatch ascii_ucd email_pattern (lit ''-@y.org'')"
proof -
  let ?df = "[\<lparr>Summary = None, Start = (0 :: int), End = (None :: int option), Location = None,
       Description = None, Attendees = lit ''Ann <ann@x.org>, a@b.com-@y.org''\<rparr>]"
  let ?out = "map Emails (clean_and_explode_emails ascii_ucd (extract_email_addresses ascii_ucd ?df))"
  have found: "concat (map (\<lambda>row. findall ascii_ucd email_pattern (Attendees row)) ?df) =
      [lit ''ann@x.org'', lit ''a@b.com'', lit ''-@y.org'']"
    by code_simp
  from calendar_addresses_are_the_matches [of ascii_ucd ?df]
  have out: "?out = [lit ''ann@x.org'', lit ''a@b.com'', lit ''-@y.org'']"
    and each: "\<forall>m \<in> set ?out.
        re_fullmatch ascii_ucd email_pattern m \<longleftrightarrow> is_word ascii_ucd (hd m) \<and> is_word ascii_ucd (last m)"
    unfolding found by blast+
  have words: "is_word ascii_ucd (hd (lit ''ann@x.org'')) \<and> is_word ascii_ucd (last (lit ''ann@x.org''))"
    "\<not> is_word ascii_ucd (hd (lit ''-@y.org''))"
    by code_simp+
  from each have "re_fullmatch ascii_ucd email_pattern (lit ''ann@x.org'')"
    "\<not> re_fullmatch ascii_ucd email_pattern (lit ''-@y.org'')"
    unfolding out using words by simp_all
  with out show ?thesis by simp
qed

text \<open>
  The claim as it stands fails: an attendee text in which one match ends where the next
  begins gives an address that starts with a hyphen; on its own that address does not
  match the pattern, neither as a whole nor from its start nor anywhere inside.
\<close>

theorem calendar_address_not_matching_counterexample:
  "map_sum id (\<lambda>df. map Emails (clean_and_explode_emails ascii_ucd (extract_email_addresses ascii_ucd df)))
     (ics_to_dataframe (sample_env [sample_event (date 2023 9 1) ''a@b.com-@y.org''] [] 0)
        ''cal.ics'' None None) =
     Inr [lit ''a@b.com'', lit ''-@y.org'']
   \<and> \<not> re_fullmatch ascii_ucd email_pattern (lit ''-@y.org'')
   \<and> \<not> re_match ascii_ucd email_pattern (lit ''-@y.org'')
   \<and> findall ascii_ucd email_pattern (lit ''-@y.org'') = []"
  by code_simp

section \<open>The date filter\<close>

lemma traverse_Inr:
  "traverse f xs = Inr ys \<Longrightarrow> list_all2 (\<lambda>x y. f x = Inr y) xs ys"
  by (induction xs arbitrary: ys) (auto simp: and_then_def split: sum.splits)

lemma make_event_start:
  assumes "make_event E component = Inr ev"
  shows "\<exists>d. dtstart component = Some d \<and> convert_if_datetime E d = Inr (Start ev)"
  using assms
  by (auto simp: make_event_def and_then_def split: sum.splits option.splits)

lemma start_instant:
  assumes "convert_if_datetime E d = Inr d'" and "to_datetime E d' = Inr t"
    and "utc_instant d \<noteq> None"
  shows "utc_instant d = Some t"
  using assms
  by (auto simp: convert_if_datetime_def astimezone_utc_def to_datetime_def timestamp_def
      utc_instant_def and_then_def Let_def split: dt.splits option.splits if_splits)

lemma loaded_starts:
  assumes "ics_to_dataframe E ics_file None None = Inr df"
    and "open_rb E ics_file = Inr content" and "from_ical E content = Inr components"
  shows "list_all2 (\<lambda>c row. \<exists>d. dtstart c = Some d \<and>
           (utc_instant d \<noteq> None \<longrightarrow> utc_instant d = Some (Start row))) components df"
proof -
  from assms obtain events starts ends where
    events: "traverse (make_event E) components = Inr events"
    and starts: "traverse (to_datetime E) (map Start events) = Inr starts"
    and ends: "traverse (to_datetime_opt E) (map End events) = Inr ends"
    and df: "df = map (\<lambda>(row, s, e). with_times row s e) (zip events (zip starts ends))"
    by (auto simp: ics_to_dataframe_def and_then_def Let_def split: sum.splits if_splits)
  from events have c_ev: "list_all2 (\<lambda>c ev. make_event E c = Inr ev) components events"
    by (rule traverse_Inr)
  from starts have ev_s: "list_all2 (\<lambda>ev s. to_datetime E (Start ev) = Inr s) events starts"
    by (auto dest!: traverse_Inr simp: list_all2_map1)
  from ends have len: "length ends = length events"
    by (auto dest!: traverse_Inr simp: list_all2_map1 dest: list_all2_lengthD)
  have "list_all2 (\<lambda>ev row. \<exists>s. to_datetime E (Start ev) = Inr s \<and> Start row = s) events df"
    unfolding df using ev_s len
    by (auto simp: list_all2_conv_all_nth with_times_def)
  with c_ev have "list_all2 (\<lambda>c row. \<exists>ev s. make_event E c = Inr ev \<and>
      to_datetime E (Start ev) = Inr s \<and> Start row = s) components df"
    by (auto simp: list_all2_conv_all_nth)
  then show ?thesis
  proof (rule list_all2_mono)
    fix c row
    assume "\<exists>ev s. make_event E c = Inr ev \<and> to_datetime E (Start ev) = Inr s \<and> Start row = s"
    then obtain ev where ev: "make_event E c = Inr ev" "to_datetime E (Start ev) = Inr (Start row)"
      by blast
    from make_event_start [OF ev(1)] obtain d
      where d: "dtstart c = Some d" "convert_if_datetime E d = Inr (Start ev)"
      by blast
    from start_instant [OF d(2) ev(2)] d(1)
    show "\<exists>d. dtstart c = Some d \<and>
        (utc_instant d \<noteq> None \<longrightarrow> utc_instant d = Some (Start row))"
      by blast
  qed
qed

lemma ics_to_dataframe_filter:
  "ics_to_dataframe E ics_file (Some start_date) (Some end_date) =
     (case ics_to_dataframe E ics_file None None of
        Inl err \<Rightarrow> Inl err
      | Inr df \<Rightarrow> Inr (filter (\<lambda>row. start_date \<le> Start row \<and> Start row < end_date) df))"
  by (simp add: ics_to_dataframe_def and_then_def in_date_range_def [abs_def] Let_def split: sum.splits)

text \<open>
  Claim C3, as amended. With both bounds given, \<open>ics_to_dataframe\<close> raises what it raises
  without bounds, or else keeps, in order, exactly the rows whose \<open>Start\<close> lies in the
  half-open interval from the start bound to the end bound. For an event whose start is
  a date or a datetime with a zone, \<open>Start\<close> is that start as a UTC instant (midnight
  for a date), not its calendar-local date; of a start with a time of day and no zone
  nothing is said. With the bounds 2023-08-01 and 2024-01-01, a date-only start on
  2023-07-31 is excluded, on 2023-08-01 included, on 2023-12-31 included, on 2024-01-01
  excluded.
\<close>

theorem date_filter_compares_utc_instants:
  "ics_to_dataframe E ics_file (Some start_date) (Some end_date) =
     (case ics_to_dataframe E ics_file None None of
        Inl err \<Rightarrow> Inl err
      | Inr df \<Rightarrow> Inr (filter (\<lambda>row. start_date \<le> Start row \<and> Start row < end_date) df))
   \<and> (ics_to_dataframe E ics_file None None = Inr df \<longrightarrow>
        open_rb E ics_file = Inr content \<longrightarrow> from_ical E content = Inr components \<longrightarrow>
        list_all2 (\<lambda>c row. \<exists>d. dtstart c = Some d \<and>
            (utc_instant d \<noteq> None \<longrightarrow> utc_instant d = Some (Start row))) components df)
   \<and> map_sum id (map Start)
        (ics_to_dataframe (sample_env [sample_event (date 2023 7 31) ''Ann''] [] 0) ''cal.ics''
           (Some (datetime 2023 8 1 0 0 0)) (Some (datetime 2024 1 1 0 0 0))) = Inr []
   \<and> map_sum id (map Start)
        (ics_to_dataframe (sample_env [sample_event (date 2023 8 1) ''Ann''] [] 0) ''cal.ics''
           (Some (datetime 2023 8 1 0 0 0)) (Some (datetime 2024 1 1 0 0 0))) =
       Inr [datetime 2023 8 1 0 0 0]
   \<and> map_sum id (map Start)
        (ics_to_dataframe (sample_env [sample_event (date 2023 12 31) ''Ann''] [] 0) ''cal.ics''
           (Some (datetime 2023 8 1 0 0 0)) (Some (datetime 2024 1 1 0 0 0))) =
       Inr [datetime 2023 12 31 0 0 0]
   \<and> map_sum id (map Start)
        (ics_to_dataframe (sample_env [sample_event (date 2024 1 1) ''Ann''] [] 0) ''cal.ics''
           (Some (datetime 2023 8 1 0 0 0)) (Some (datetime 2024 1 1 0 0 0))) = Inr []"
proof -
  have examples:
    "map_sum id (map Start)
        (ics_to_dataframe (sample_env [sample_event (date 2023 7 31) ''Ann''] [] 0) ''cal.ics''
           (Some (datetime 2023 8 1 0 0 0)) (Some (datetime 2024 1 1 0 0 0))) = Inr []"
    "map_sum id (map Start)
        (ics_to_dataframe (sample_env [sample_event (date 2023 8 1) ''Ann''] [] 0) ''cal.ics''
           (Some (datetime 2023 8 1 0 0 0)) (Some (datetime 2024 1 1 0 0 0))) =
       Inr [datetime 2023 8 1 0 0 0]"
    "map_sum id (map Start)
        (ics_to_dataframe (sample_env [sample_event (date 2023 12 31) ''Ann''] [] 0) ''cal.ics''
           (Some (datetime 2023 8 1 0 0 0)) (Some (datetime 2024 1 1 0 0 0))) =
       Inr [datetime 2023 12 31 0 0 0]"
    "map_sum id (map Start)
        (ics_to_dataframe (sample_env [sample_event (date 2024 1 1) ''Ann''] [] 0) ''cal.ics''
           (Some (datetime 2023 8 1 0 0 0)) (Some (datetime 2024 1 1 0 0 0))) = Inr []"
    by code_simp+
  show ?thesis
    using ics_to_dataframe_filter [of E ics_file start_date end_date]
      loaded_starts [of E ics_file df content components] examples
    by blast
qed

theorem date_filter_compares_utc_instants_witness:
  "ics_to_dataframe
     (sample_env [sample_event (DateTime (datetime 2023 12 31 23 30 0) (Some (- 18000))) ''Ann''] [] 0)
     ''cal.ics'' None None =
     Inr [\<lparr>Summary = None, Start = datetime 2024 1 1 4 30 0, End = None, Location = None,
           Description = None, Attendees = lit ''Ann, Y''\<rparr>]
   \<and> open_rb
       (sample_env [sample_event (DateTime (datetime 2023 12 31 23 30 0) (Some (- 18000))) ''Ann''] [] 0)
       ''cal.ics'' = Inr []
   \<and> from_ical
       (sample_env [sample_event (DateTime (datetime 2023 12 31 23 30 0) (Some (- 18000))) ''Ann''] [] 0)
       [] = Inr [sample_event (DateTime (datetime 2023 12 31 23 30 0) (Some (- 18000))) ''Ann'']
   \<and> utc_instant (DateTime (datetime 2023 12 31 23 30 0) (Some (- 18000))) =
       Some (datetime 2024 1 1 4 30 0)
   \<and> list_all2 (\<lambda>c row. \<exists>d. dtstart c = Some d \<and> utc_instant d = Some (Start row))
       [sample_event (DateTime (datetime 2023 12 31 23 30 0) (Some (- 18000))) ''Ann'']
       [\<lparr>Summary = None, Start = datetime 2024 1 1 4 30 0, End = (None :: int option),
         Location = None, Description = None, Attendees = lit ''Ann, Y''\<rparr>]"
proof -
  let ?d = "DateTime (datetime 2023 12 31 23 30 0) (Some (- 18000))"
  let ?ev = "sample_event ?d ''Ann''"
  let ?E = "sample_env [?ev] [] 0"
  let ?df = "[\<lparr>Summary = None, Start = datetime 2024 1 1 4 30 0, End = (None :: int option),
      Location = None, Description = None, Attendees = lit ''Ann, Y''\<rparr>]"
  have h1: "ics_to_dataframe ?E ''cal.ics'' None None = Inr ?df"
    by code_simp
  have h2: "open_rb ?E ''cal.ics'' = Inr []"
    by (simp add: sample_env_def)
  have h3: "from_ical ?E [] = Inr [?ev]"
    by (simp add: sample_env_def)
  have h4: "utc_instant ?d = Some (datetime 2024 1 1 4 30 0)"
    by code_simp
  have start: "dtstart ?ev = Some ?d"
    by (simp add: sample_event_def)
  from date_filter_compares_utc_instants [of ?E "''cal.ics''" 0 0 ?df "[]" "[?ev]"] h1 h2 h3
  have "list_all2 (\<lambda>c row. \<exists>d. dtstart c = Some d \<and>
      (utc_instant d \<noteq> None \<longrightarrow> utc_instant d = Some (Start row))) [?ev] ?df"
    by blast
  then have l: "list_all2 (\<lambda>c row. \<exists>d. dtstart c = Some d \<and> utc_instant d = Some (Start row))
      [?ev] ?df"
    using h4 start by simp
  show ?thesis by (rule conjI [OF h1 conjI [OF h2 conjI [OF h3 conjI [OF h4 l]]]])
qed

text \<open>
  The claim as it stands fails: an event that starts on 2023-12-31 at 23:30 in a zone
  five hours behind UTC has a calendar-local start date inside the bounds, and is
  dropped, because its UTC instant is 2024-01-01 04:30.
\<close>

theorem date_filter_counterexample:
  "days_from_civil 2023 8 1 \<le>
     calendar_local_date (DateTime (datetime 2023 12 31 23 30 0) (Some (- 18000)))
   \<and> calendar_local_date (DateTime (datetime 2023 12 31 23 30 0) (Some (- 18000))) <
     days_from_civil 2024 1 1
   \<and> calendar_local_date (DateTime (datetime 2023 12 31 23 30 0) (Some (- 18000))) =
     days_from_civil 2023 12 31
   \<and> ics_to_dataframe
        (sample_env [sample_event (DateTime (datetime 2023 12 31 23 30 0) (Some (- 18000))) ''Ann''] [] 0)
        ''cal.ics'' (Some (datetime 2023 8 1 0 0 0)) (Some (datetime 2024 1 1 0 0 0)) = Inr []"
  by code_simp

section \<open>The conversion to UTC\<close>

text \<open>
  Claim C4, at the input where the code departs from it. A start without a zone and
  with a time of day carries no timezone information, yet it is converted: it is read
  in the zone of the machine, so that the same calendar gives 07:00 on a machine two
  hours ahead of UTC and 14:00 on one five hours behind.
\<close>

theorem naive_datetime_is_shifted_by_system_zone:
  "map_sum id (map Start)
     (ics_to_dataframe
        (sample_env [sample_event (DateTime (datetime 2023 8 1 9 0 0) None) ''Ann''] [] 7200)
        ''cal.ics'' None None) =
   Inr [datetime 2023 8 1 7 0 0]
   \<and> map_sum id (map Start)
     (ics_to_dataframe
        (sample_env [sample_event (DateTime (datetime 2023 8 1 9 0 0) None) ''Ann''] [] (- 18000))
        ''cal.ics'' None None) =
   Inr [datetime 2023 8 1 14 0 0]"
  by code_simp

section \<open>The pattern and the specification's wording of it\<close>

text \<open>
  Claim C5, at the input where the code departs from it. The last class of the pattern
  admits the bar, so in \<open>bob@site.com|alice@site.org\<close> the code finds the single
  address \<open>bob@site.com|alice\<close>, where the pattern with two or more letters after the dot
  finds \<open>bob@site.com\<close> and \<open>alice@site.org\<close>.
\<close>

theorem bar_is_taken_for_a_letter:
  "map Emails (extract_email_addresses U [row\<lparr>Attendees := lit ''bob@site.com|alice@site.org''\<rparr>]) =
     [lit ''bob@site.com|alice'']
   \<and> join (lit '', '') (findall U spec_email_pattern (lit ''bob@site.com|alice@site.org'')) =
     lit ''bob@site.com, alice@site.org''"
proof -
  have code: "join (lit '', '') (findall U email_pattern (lit ''bob@site.com|alice@site.org'')) =
      lit ''bob@site.com|alice''"
    by code_simp
  have spec: "join (lit '', '') (findall U spec_email_pattern (lit ''bob@site.com|alice@site.org'')) =
     lit ''bob@site.com, alice@site.org''"
    by code_simp
  show ?thesis
    using code spec by (simp add: extract_email_addresses_def event.defs event_emails.defs)
qed

end
